theory Spec2Isabelle
  imports Main
begin

section \<open>The stream writer: \<open>writeObservableToGrpc\<close>\<close>

text \<open>
  \<open>writeObservableToGrpc(source, call)\<close> installs three callbacks and returns a promise:
  a \<open>drain\<close> listener and a \<open>cancel\<close> listener on the call, and a subscriber on the
  source observable. Everything it does afterwards happens inside one of these
  callbacks, so one invocation is a state machine driven by the events below.
  The local variables of the closure (\<open>buffer\<close>, \<open>isComplete\<close>, \<open>clearToWrite\<close>) are
  fields of the state; so are the things the callbacks act on: whether each listener
  is still registered on the call, whether the subscriber still receives
  notifications, the promise, and the sequence of effects on the call.
\<close>

datatype ('a, 'e) event =
    Next 'a       \<comment> \<open>the source emits a value\<close>
  | Error 'e      \<comment> \<open>the source fails\<close>
  | Complete      \<comment> \<open>the source completes\<close>
  | Drain         \<comment> \<open>the call emits \<open>drain\<close>\<close>
  | Cancel        \<comment> \<open>the call emits the cancel event\<close>

datatype ('a, 'e) effect =
    Write 'a      \<comment> \<open>\<open>call.write(value)\<close>\<close>
  | End           \<comment> \<open>\<open>call.end()\<close>\<close>
  | EmitError 'e  \<comment> \<open>\<open>call.emit('error', err)\<close>\<close>

datatype 'e promise = Pending | Resolved | Rejected 'e

record ('a, 'e) writer =
  buffer :: "'a list"
  isComplete :: bool
  clearToWrite :: bool
  drainOn :: bool                   \<comment> \<open>\<open>drainHandler\<close> is registered on the call\<close>
  cancelOn :: bool                  \<comment> \<open>\<open>cancelHandler\<close> is registered on the call\<close>
  subscribed :: bool                \<comment> \<open>the subscriber is neither stopped nor unsubscribed\<close>
  promise :: "'e promise"
  trace :: "('a, 'e) effect list"   \<comment> \<open>effects on the call, oldest first\<close>

definition init :: "('a, 'e) writer" where
  "init = \<lparr> buffer = [], isComplete = False, clearToWrite = True,
            drainOn = True, cancelOn = True, subscribed = True,
            promise = Pending, trace = [] \<rparr>"

definition writes :: "('a, 'e) effect list \<Rightarrow> 'a list" where
  "writes t = concat (map (\<lambda>x. case x of Write v \<Rightarrow> [v] | End \<Rightarrow> [] | EmitError e \<Rightarrow> []) t)"

text \<open>
  What \<open>call.write\<close> returns is decided by the transport. The parameter \<open>cw\<close> gives
  the answer of the call to its \<open>n\<close>-th write (counting from 0); \<open>False\<close> is
  backpressure.
\<close>

definition write' :: "(nat \<Rightarrow> bool) \<Rightarrow> 'a \<Rightarrow> ('a, 'e) writer \<Rightarrow> ('a, 'e) writer" where
  "write' cw v s =
     s\<lparr> clearToWrite := cw (length (writes (trace s))), trace := trace s @ [Write v] \<rparr>"

text \<open>
  The closures \<open>write\<close> and \<open>done\<close> are \<open>write'\<close> and \<open>done'\<close> here.
  \<open>resolve\<close> and \<open>reject\<close> settle the promise; a settled promise stays as it is.
\<close>

definition resolve :: "('a, 'e) writer \<Rightarrow> ('a, 'e) writer" where
  "resolve s = (if promise s = Pending then s\<lparr> promise := Resolved \<rparr> else s)"

definition reject :: "'e \<Rightarrow> ('a, 'e) writer \<Rightarrow> ('a, 'e) writer" where
  "reject e s = (if promise s = Pending then s\<lparr> promise := Rejected e \<rparr> else s)"

text \<open>\<open>cleanup\<close> runs the two registered clean-ups: \<open>call.off\<close> for both listeners.\<close>

definition cleanup :: "('a, 'e) writer \<Rightarrow> ('a, 'e) writer" where
  "cleanup s = s\<lparr> drainOn := False, cancelOn := False \<rparr>"

definition done' :: "('a, 'e) writer \<Rightarrow> ('a, 'e) writer" where
  "done' s = cleanup (resolve (s\<lparr> trace := trace s @ [End] \<rparr>))"

definition drainHandler :: "(nat \<Rightarrow> bool) \<Rightarrow> ('a, 'e) writer \<Rightarrow> ('a, 'e) writer" where
  "drainHandler cw s =
     (if \<not> clearToWrite s then
        (let s1 = s\<lparr> clearToWrite := True \<rparr> in
         case buffer s1 of
           v # rest \<Rightarrow> write' cw v (s1\<lparr> buffer := rest \<rparr>)
         | [] \<Rightarrow> (if isComplete s1 then done' s1 else s1))
      else s)"

definition cancelHandler :: "('a, 'e) writer \<Rightarrow> ('a, 'e) writer" where
  "cancelHandler s = done' (s\<lparr> subscribed := False \<rparr>)"

definition on_next :: "(nat \<Rightarrow> bool) \<Rightarrow> 'a \<Rightarrow> ('a, 'e) writer \<Rightarrow> ('a, 'e) writer" where
  "on_next cw v s =
     (if clearToWrite s then write' cw v s else s\<lparr> buffer := buffer s @ [v] \<rparr>)"

definition on_error :: "'e \<Rightarrow> ('a, 'e) writer \<Rightarrow> ('a, 'e) writer" where
  "on_error e s = cleanup (reject e (s\<lparr> trace := trace s @ [EmitError e] \<rparr>))"

definition on_complete :: "('a, 'e) writer \<Rightarrow> ('a, 'e) writer" where
  "on_complete s =
     (let s1 = s\<lparr> isComplete := True \<rparr> in if buffer s1 = [] then done' s1 else s1)"

text \<open>
  Delivery of an event. A listener removed with \<open>call.off\<close> is not called any more.
  The subscriber follows the observable contract as RxJS enforces it: after an
  \<open>error\<close> or \<open>complete\<close> notification, or after \<open>unsubscribe\<close>, it receives nothing.
\<close>

fun step :: "(nat \<Rightarrow> bool) \<Rightarrow> ('a, 'e) writer \<Rightarrow> ('a, 'e) event \<Rightarrow> ('a, 'e) writer" where
  "step cw s (Next v) = (if subscribed s then on_next cw v s else s)"
| "step cw s (Error e) = (if subscribed s then on_error e (s\<lparr> subscribed := False \<rparr>) else s)"
| "step cw s Complete = (if subscribed s then on_complete (s\<lparr> subscribed := False \<rparr>) else s)"
| "step cw s Drain = (if drainOn s then drainHandler cw s else s)"
| "step cw s Cancel = (if cancelOn s then cancelHandler s else s)"

definition run :: "(nat \<Rightarrow> bool) \<Rightarrow> ('a, 'e) writer \<Rightarrow> ('a, 'e) event list \<Rightarrow> ('a, 'e) writer" where
  "run cw s es = foldl (step cw) s es"

definition writeObservableToGrpc :: "(nat \<Rightarrow> bool) \<Rightarrow> ('a, 'e) event list \<Rightarrow> ('a, 'e) writer" where
  "writeObservableToGrpc cw es = run cw init es"

text \<open>The errors emitted on the call, oldest first.\<close>

definition errors :: "('a, 'e) effect list \<Rightarrow> 'e list" where
  "errors t = concat (map (\<lambda>x. case x of Write v \<Rightarrow> [] | End \<Rightarrow> [] | EmitError e \<Rightarrow> [e]) t)"

subsection \<open>The server-stream adapter: \<open>createStreamServiceMethod\<close>\<close>

text \<open>
  The adapter awaits the promise of the stream writer inside \<open>try\<close>; its \<open>catch\<close>
  block runs when that promise is rejected and emits the error on the call. The
  continuation of an \<open>await\<close> runs once, right after the callback that settled the
  promise, so it is attached to the step in which the promise goes from pending to
  rejected. The handler's normalised result is the producer part of the events.
\<close>

definition stream_step ::
    "(nat \<Rightarrow> bool) \<Rightarrow> ('a, 'e) writer \<Rightarrow> ('a, 'e) event \<Rightarrow> ('a, 'e) writer" where
  "stream_step cw s ev =
     (let s' = step cw s ev in
      case promise s' of
        Rejected err \<Rightarrow>
          (if promise s = Pending then s'\<lparr> trace := trace s' @ [EmitError err] \<rparr> else s')
      | Pending \<Rightarrow> s'
      | Resolved \<Rightarrow> s')"

definition createStreamServiceMethod ::
    "(nat \<Rightarrow> bool) \<Rightarrow> ('a, 'e) event list \<Rightarrow> ('a, 'e) writer" where
  "createStreamServiceMethod cw es = foldl (stream_step cw) init es"

subsection \<open>Auxiliary predicates on writer states\<close>

text \<open>A state with both listeners removed and the subscriber released is inert.\<close>

definition inert :: "('a, 'e) writer \<Rightarrow> bool" where
  "inert s \<longleftrightarrow> \<not> drainOn s \<and> \<not> cancelOn s \<and> \<not> subscribed s"

text \<open>
  The promise is pending exactly as long as both listeners are registered: every
  path that settles it (\<open>done\<close>, the error callback) also runs \<open>cleanup\<close>. Once
  \<open>isComplete\<close> is set the subscriber has received its last notification.
\<close>

definition live_inv :: "('a, 'e) writer \<Rightarrow> bool" where
  "live_inv s \<longleftrightarrow>
     (isComplete s \<longrightarrow> \<not> subscribed s) \<and>
     (if promise s = Pending then drainOn s \<and> cancelOn s
      else \<not> drainOn s \<and> \<not> cancelOn s \<and> \<not> subscribed s)"

text \<open>Events that neither terminate the producer nor cancel the call.\<close>

fun is_flow :: "('a, 'e) event \<Rightarrow> bool" where
  "is_flow (Next v) = True"
| "is_flow Drain = True"
| "is_flow (Error e) = False"
| "is_flow Complete = False"
| "is_flow Cancel = False"

text \<open>
  Persistent backpressure: once \<open>call.write\<close> has answered \<open>false\<close>, it answers \<open>false\<close>
  to every later write.
\<close>

definition persistent :: "(nat \<Rightarrow> bool) \<Rightarrow> bool" where
  "persistent cw \<longleftrightarrow> (\<forall>j k. \<not> cw j \<longrightarrow> j \<le> k \<longrightarrow> \<not> cw k)"

text \<open>The values the producer emits in a sequence of events, in order.\<close>

definition emitted :: "('a, 'e) event list \<Rightarrow> 'a list" where
  "emitted es = concat (map (\<lambda>ev. case ev of Next v \<Rightarrow> [v] | _ \<Rightarrow> []) es)"

text \<open>
  Values wait in the buffer only while the call is not clear to write, and the call
  is not clear to write only after a write that met backpressure.
\<close>

definition fifo_inv :: "(nat \<Rightarrow> bool) \<Rightarrow> ('a, 'e) writer \<Rightarrow> bool" where
  "fifo_inv cw s \<longleftrightarrow>
     (buffer s \<noteq> [] \<longrightarrow> \<not> clearToWrite s) \<and>
     (\<not> clearToWrite s \<longrightarrow> (\<exists>j < length (writes (trace s)). \<not> cw j))"

section \<open>Call adapters\<close>

text \<open>
  A handler's result is normalised to an observable. What a subscriber sees of an
  observable is a sequence of notifications; a subscriber stops listening at the
  first \<open>error\<close> or \<open>complete\<close>.
\<close>

datatype ('a, 'e) notification = OnNext 'a | OnError 'e | OnComplete

subsection \<open>The unary adapter: \<open>createUnaryServiceMethod\<close>\<close>






subsection \<open>The reactive client-stream adapter: \<open>createRequestStreamMethod\<close>\<close>

text \<open>
  First half of the adapter: the inbound call events feed a subject \<open>req\<close>, which the
  handler receives as an observable. A subject passes a notification on unless it
  has already passed on an \<open>error\<close> or a \<open>complete\<close>.
\<close>

record ('m, 'e) request_stream =
  delivered :: "('m, 'e) notification list"   \<comment> \<open>what \<open>req\<close> has passed on, oldest first\<close>
  req_stopped :: bool
  call_ends :: nat                            \<comment> \<open>number of \<open>call.end()\<close> invocations\<close>

definition request_init :: "('m, 'e) request_stream" where
  "request_init = \<lparr> delivered = [], req_stopped = False, call_ends = 0 \<rparr>"

definition subject_next :: "'m \<Rightarrow> ('m, 'e) request_stream \<Rightarrow> ('m, 'e) request_stream" where
  "subject_next m s =
     (if req_stopped s then s else s\<lparr> delivered := delivered s @ [OnNext m] \<rparr>)"

definition subject_error :: "'e \<Rightarrow> ('m, 'e) request_stream \<Rightarrow> ('m, 'e) request_stream" where
  "subject_error e s =
     (if req_stopped s then s
      else s\<lparr> delivered := delivered s @ [OnError e], req_stopped := True \<rparr>)"

definition subject_complete :: "('m, 'e) request_stream \<Rightarrow> ('m, 'e) request_stream" where
  "subject_complete s =
     (if req_stopped s then s
      else s\<lparr> delivered := delivered s @ [OnComplete], req_stopped := True \<rparr>)"

text \<open>
  The \<open>error\<close> listener computes \<open>String(e).toLowerCase().indexOf('cancelled')\<close> and
  uses the number as the condition of an \<open>if\<close>. An error value is represented by the
  string \<open>String(e)\<close> gives for it. \<open>toLowerCase\<close> is modelled on the letters A to Z.
  \<open>indexOf\<close> returns the position of the first occurrence, or \<open>-1\<close> when there is none;
  a number is truthy unless it is zero.
\<close>

definition toLowerCase :: "string \<Rightarrow> string" where
  "toLowerCase s =
     map (\<lambda>c. case map_of (zip ''ABCDEFGHIJKLMNOPQRSTUVWXYZ'' ''abcdefghijklmnopqrstuvwxyz'') c of
                 Some d \<Rightarrow> d
               | None \<Rightarrow> c) s"

fun indexOf_from :: "string \<Rightarrow> string \<Rightarrow> nat \<Rightarrow> int" where
  "indexOf_from [] p i = (if p = [] then int i else - 1)"
| "indexOf_from (c # cs) p i =
     (if take (length p) (c # cs) = p then int i else indexOf_from cs p (Suc i))"

definition indexOf :: "string \<Rightarrow> string \<Rightarrow> int" where
  "indexOf s p = indexOf_from s p 0"

definition truthy_number :: "int \<Rightarrow> bool" where
  "truthy_number n \<longleftrightarrow> n \<noteq> 0"

datatype 'm call_event =
    Data 'm            \<comment> \<open>the call emits \<open>data\<close>\<close>
  | CallError string   \<comment> \<open>the call emits \<open>error\<close>\<close>
  | CallEnd            \<comment> \<open>the call emits \<open>end\<close>\<close>

fun request_step ::
    "('m, string) request_stream \<Rightarrow> 'm call_event \<Rightarrow> ('m, string) request_stream" where
  "request_step s (Data m) = subject_next m s"
| "request_step s (CallError e) =
     (let isCancelledError = indexOf (toLowerCase e) ''cancelled'' in
      if truthy_number isCancelledError then s\<lparr> call_ends := call_ends s + 1 \<rparr>
      else subject_error e s)"
| "request_step s CallEnd = subject_complete s"












section \<open>Pattern registry\<close>

text \<open>
  \<open>GrpcMethodStreamingType\<close> is an enumeration of the framework whose members are
  strings; \<open>streaming_value\<close> gives the member's value, which is what
  \<open>JSON.stringify\<close> serialises.
\<close>

datatype GrpcMethodStreamingType = NO_STREAMING | RX_STREAMING | PT_STREAMING

fun streaming_value :: "GrpcMethodStreamingType \<Rightarrow> string" where
  "streaming_value NO_STREAMING = ''no_stream''"
| "streaming_value RX_STREAMING = ''rx_stream''"
| "streaming_value PT_STREAMING = ''pt_stream''"

text \<open>
  \<open>JSON.stringify\<close> on a flat object whose property values are strings or
  \<open>undefined\<close>. The properties are serialised in the order the object holds them; a
  property whose value is \<open>undefined\<close> is left out. An object is the list of its
  properties in that order.
\<close>

datatype json = JString string | JUndefined

fun join :: "string \<Rightarrow> string list \<Rightarrow> string" where
  "join sep [] = []"
| "join sep [x] = x"
| "join sep (x # y # r) = x @ sep @ join sep (y # r)"

definition hex_digit :: "nat \<Rightarrow> char" where
  "hex_digit n = ''0123456789abcdef'' ! (n mod 16)"

definition json_escape :: "char \<Rightarrow> string" where
  "json_escape c =
     (if c = CHR 0x22 then [CHR 0x5C, CHR 0x22]
      else if c = CHR 0x5C then [CHR 0x5C, CHR 0x5C]
      else if c = CHR 0x08 then [CHR 0x5C, CHR ''b'']
      else if c = CHR 0x0C then [CHR 0x5C, CHR ''f'']
      else if c = CHR 0x0A then [CHR 0x5C, CHR ''n'']
      else if c = CHR 0x0D then [CHR 0x5C, CHR ''r'']
      else if c = CHR 0x09 then [CHR 0x5C, CHR ''t'']
      else if (of_char c :: nat) < 32
        then [CHR 0x5C, CHR ''u'', CHR ''0'', CHR ''0'',
              hex_digit (of_char c div 16), hex_digit (of_char c)]
      else [c])"

definition json_quote :: "string \<Rightarrow> string" where
  "json_quote s = [CHR 0x22] @ concat (map json_escape s) @ [CHR 0x22]"

fun json_member :: "string \<times> json \<Rightarrow> string list" where
  "json_member (k, JString v) = [json_quote k @ '':'' @ json_quote v]"
| "json_member (k, JUndefined) = []"

definition JSON_stringify :: "(string \<times> json) list \<Rightarrow> string" where
  "JSON_stringify props = ''{'' @ join '','' (concat (map json_member props)) @ ''}''"

definition createPattern :: "string \<Rightarrow> json \<Rightarrow> GrpcMethodStreamingType \<Rightarrow> string" where
  "createPattern service methodName streaming =
     JSON_stringify [(''service'', JString service), (''rpc'', methodName),
                     (''streaming'', JString (streaming_value streaming))]"

text \<open>
  \<open>addHandler\<close> takes the pattern as a string or as an object, sets the flag
  \<open>isEventHandler\<close> on the handler and stores the handler under the route.
\<close>

datatype pattern = PString string | PObject "(string \<times> json) list"

record 'f MessageHandler =
  handler :: 'f
  isEventHandler :: bool

definition addHandler ::
    "pattern \<Rightarrow> 'f MessageHandler \<Rightarrow> bool \<Rightarrow> (string \<rightharpoonup> 'f MessageHandler)
      \<Rightarrow> (string \<rightharpoonup> 'f MessageHandler)" where
  "addHandler pat cb isEvent messageHandlers =
     (let route = (case pat of PString s \<Rightarrow> s | PObject props \<Rightarrow> JSON_stringify props)
      in messageHandlers(route \<mapsto> cb\<lparr> isEventHandler := isEvent \<rparr>))"

text \<open>The components of a key object, whatever the order of its properties.\<close>

definition components :: "(string \<times> json) list \<Rightarrow> json \<times> json \<times> json" where
  "components props =
     (case map_of props ''service'' of Some v \<Rightarrow> v | None \<Rightarrow> JUndefined,
      case map_of props ''rpc'' of Some v \<Rightarrow> v | None \<Rightarrow> JUndefined,
      case map_of props ''streaming'' of Some v \<Rightarrow> v | None \<Rightarrow> JUndefined)"

section \<open>Service binder\<close>

text \<open>
  A method of a service definition. \<open>requestStream\<close> is tested for truth only (an
  absent flag counts as false); \<open>originalName\<close> may be absent.
\<close>

record MethodDefinition =
  requestStream :: bool
  responseStream :: bool
  originalName :: "string option"

datatype 'h adapter =
    RequestStreamMethod 'h bool    \<comment> \<open>\<open>createRequestStreamMethod(handler, responseStream)\<close>\<close>
  | StreamCallMethod 'h bool       \<comment> \<open>\<open>createStreamCallMethod(handler, responseStream)\<close>\<close>
  | StreamServiceMethod 'h         \<comment> \<open>\<open>createStreamServiceMethod(handler)\<close>\<close>
  | UnaryServiceMethod 'h          \<comment> \<open>\<open>createUnaryServiceMethod(handler)\<close>\<close>

definition createServiceMethod ::
    "'h \<Rightarrow> MethodDefinition \<Rightarrow> GrpcMethodStreamingType \<Rightarrow> 'h adapter" where
  "createServiceMethod methodHandler protoNativeHandler streamType =
     (if requestStream protoNativeHandler \<and> streamType = RX_STREAMING
        then RequestStreamMethod methodHandler (responseStream protoNativeHandler)
      else if requestStream protoNativeHandler \<and> streamType = PT_STREAMING
        then StreamCallMethod methodHandler (responseStream protoNativeHandler)
      else if responseStream protoNativeHandler then StreamServiceMethod methodHandler
      else UnaryServiceMethod methodHandler)"

definition opt_json :: "string option \<Rightarrow> json" where
  "opt_json x = (case x of Some s \<Rightarrow> JString s | None \<Rightarrow> JUndefined)"

text \<open>
  The body of the loop of \<open>createService\<close> for one method: the bindings it adds to
  the service object (none when no handler is found).
\<close>

definition bind_method ::
    "(string \<rightharpoonup> 'h) \<Rightarrow> string \<Rightarrow> string \<Rightarrow> MethodDefinition \<Rightarrow> (string \<times> 'h adapter) list" where
  "bind_method messageHandlers name methodName methodFunction =
     (let (methodHandler, streamingType) =
            (if requestStream methodFunction then
               (case messageHandlers (createPattern name (JString methodName) RX_STREAMING) of
                  Some h \<Rightarrow> (Some h, RX_STREAMING)
                | None \<Rightarrow>
                    (messageHandlers (createPattern name (JString methodName) PT_STREAMING),
                     PT_STREAMING))
             else (messageHandlers (createPattern name (JString methodName) NO_STREAMING),
                   NO_STREAMING));
          methodHandler =
            (if methodHandler = None \<and> Some methodName \<noteq> originalName methodFunction
             then messageHandlers
                    (createPattern name (opt_json (originalName methodFunction)) streamingType)
             else methodHandler)
      in case methodHandler of
           None \<Rightarrow> []
         | Some h \<Rightarrow> [(methodName, createServiceMethod h methodFunction streamingType)])"

definition createService ::
    "(string \<rightharpoonup> 'h) \<Rightarrow> (string \<times> MethodDefinition) list \<Rightarrow> string
      \<Rightarrow> (string \<times> 'h adapter) list" where
  "createService messageHandlers grpcService name =
     concat (map (\<lambda>(methodName, methodFunction).
                    bind_method messageHandlers name methodName methodFunction) grpcService)"

section \<open>Service discovery\<close>

text \<open>
  The loaded package is an untyped value. The walk tells apart: objects, arrays
  included (the values for which \<open>isObject\<close> holds; "plain object" below), functions (which may carry properties,
  as a generated client constructor carries \<open>service\<close>), \<open>undefined\<close>, \<open>null\<close>, booleans,
  and the other primitives. An object or function is the list of its enumerable
  properties in the order of \<open>Object.keys\<close>. Primitives have no \<open>service\<close> property,
  so their truth value plays no part.
\<close>

datatype grpc_definition =
    DUndefined
  | DNull
  | DBool bool
  | DPrimitive
  | DObject "(string \<times> grpc_definition) list"
  | DFunction "(string \<times> grpc_definition) list"

fun isObject :: "grpc_definition \<Rightarrow> bool" where
  "isObject (DObject props) = True"
| "isObject (DFunction props) = False"
| "isObject DUndefined = False"
| "isObject DNull = False"
| "isObject (DBool b) = False"
| "isObject DPrimitive = False"

fun truthy_value :: "grpc_definition \<Rightarrow> bool" where
  "truthy_value DUndefined = False"
| "truthy_value DNull = False"
| "truthy_value (DBool b) = b"
| "truthy_value DPrimitive = True"
| "truthy_value (DObject props) = True"
| "truthy_value (DFunction props) = True"

text \<open>The value of \<open>deepDefinition.service\<close>.\<close>

fun service_field :: "grpc_definition \<Rightarrow> grpc_definition" where
  "service_field (DObject props) =
     (case map_of props ''service'' of Some v \<Rightarrow> v | None \<Rightarrow> DUndefined)"
| "service_field (DFunction props) =
     (case map_of props ''service'' of Some v \<Rightarrow> v | None \<Rightarrow> DUndefined)"
| "service_field DUndefined = DUndefined"
| "service_field DNull = DUndefined"
| "service_field (DBool b) = DUndefined"
| "service_field DPrimitive = DUndefined"

definition isServiceDefined :: "grpc_definition \<Rightarrow> bool" where
  "isServiceDefined deepDefinition \<longleftrightarrow>
     truthy_value deepDefinition \<and> service_field deepDefinition \<noteq> DUndefined"

definition isServiceBoolean :: "grpc_definition \<Rightarrow> bool" where
  "isServiceBoolean deepDefinition \<longleftrightarrow>
     (if isServiceDefined deepDefinition then service_field deepDefinition \<noteq> DBool False
      else False)"

definition parseDeepServiceName :: "string \<Rightarrow> string \<Rightarrow> string" where
  "parseDeepServiceName name key = (if length name = 0 then key else name @ ''.'' @ key)"

type_synonym services = "(string \<times> grpc_definition) list"

text \<open>
  \<open>collectDeepServices\<close> with its \<open>for\<close> loop over the keys as \<open>traverse\<close>; the
  accumulator is passed along and returned.
\<close>

fun collectDeepServices :: "string \<Rightarrow> grpc_definition \<Rightarrow> services \<Rightarrow> services"
  and traverse :: "string \<Rightarrow> (string \<times> grpc_definition) list \<Rightarrow> services \<Rightarrow> services" where
  "collectDeepServices name (DObject props) accumulator = traverse name props accumulator"
| "collectDeepServices name DUndefined accumulator = accumulator"
| "collectDeepServices name DNull accumulator = accumulator"
| "collectDeepServices name (DBool b) accumulator = accumulator"
| "collectDeepServices name DPrimitive accumulator = accumulator"
| "collectDeepServices name (DFunction props) accumulator = accumulator"
| "traverse name [] accumulator = accumulator"
| "traverse name ((key, deepDefinition) # rest) accumulator =
     traverse name rest
       (if isServiceDefined deepDefinition \<and> isServiceBoolean deepDefinition
        then accumulator @ [(parseDeepServiceName name key, deepDefinition)]
        else collectDeepServices (parseDeepServiceName name key) deepDefinition accumulator)"

definition getServiceNames :: "grpc_definition \<Rightarrow> services" where
  "getServiceNames grpcPkg = collectDeepServices [] grpcPkg []"

subsection \<open>What discovery is to return\<close>

text \<open>
  A node carries a service definition when its \<open>service\<close> field is defined and is not
  \<open>false\<close>. \<open>all_nodes\<close> lists every node below the root with the path of keys that
  leads to it, a node before the nodes inside it. \<open>claimed_services\<close> is the result
  as stated: every node that carries a service definition, with its dotted name.
\<close>

definition carries_service :: "grpc_definition \<Rightarrow> bool" where
  "carries_service d \<longleftrightarrow> service_field d \<noteq> DUndefined \<and> service_field d \<noteq> DBool False"

fun all_nodes :: "grpc_definition \<Rightarrow> (string list \<times> grpc_definition) list"
  and all_members :: "(string \<times> grpc_definition) list \<Rightarrow> (string list \<times> grpc_definition) list" where
  "all_nodes (DObject props) = all_members props"
| "all_nodes (DFunction props) = all_members props"
| "all_nodes DUndefined = []"
| "all_nodes DNull = []"
| "all_nodes (DBool b) = []"
| "all_nodes DPrimitive = []"
| "all_members [] = []"
| "all_members ((key, d) # rest) =
     ([key], d) # map (\<lambda>(p, x). (key # p, x)) (all_nodes d) @ all_members rest"

definition dotted :: "string list \<Rightarrow> string" where
  "dotted path = join ''.'' path"

definition claimed_services :: "grpc_definition \<Rightarrow> services" where
  "claimed_services t =
     map (\<lambda>(p, d). (dotted p, d)) (filter (\<lambda>(p, d). carries_service d) (all_nodes t))"

text \<open>
  \<open>walk_nodes\<close> lists the nodes below the root that are reached through plain objects
  carrying no service definition: the members of the root when it is a plain object,
  and the members of each listed node that is a plain object and carries no service
  definition.
\<close>

fun walk_nodes :: "grpc_definition \<Rightarrow> (string list \<times> grpc_definition) list"
  and walk_members :: "(string \<times> grpc_definition) list \<Rightarrow> (string list \<times> grpc_definition) list" where
  "walk_nodes (DObject props) = walk_members props"
| "walk_nodes (DFunction props) = []"
| "walk_nodes DUndefined = []"
| "walk_nodes DNull = []"
| "walk_nodes (DBool b) = []"
| "walk_nodes DPrimitive = []"
| "walk_members [] = []"
| "walk_members ((key, d) # rest) =
     ([key], d)
       # (if carries_service d then [] else map (\<lambda>(p, x). (key # p, x)) (walk_nodes d))
       @ walk_members rest"

text \<open>The name the walk gives to a node reached from \<open>name\<close> along a path.\<close>

definition named :: "string \<Rightarrow> string list \<times> grpc_definition \<Rightarrow> string \<times> grpc_definition" where
  "named name = (\<lambda>(p, x). (foldl parseDeepServiceName name p, x))"

text \<open>
  A tree in which the service definitions are terminal: no key of a namespace (a
  plain object that is walked through) is empty, and nothing inside a node that
  carries a service definition, or inside a function, carries one.
\<close>

definition service_free :: "grpc_definition \<Rightarrow> bool" where
  "service_free d \<longleftrightarrow> filter (\<lambda>(p, x). carries_service x) (all_nodes d) = []"

fun namespace_tree :: "grpc_definition \<Rightarrow> bool"
  and namespace_members :: "(string \<times> grpc_definition) list \<Rightarrow> bool" where
  "namespace_tree (DObject props) = namespace_members props"
| "namespace_tree (DFunction props) = service_free (DFunction props)"
| "namespace_tree DUndefined = True"
| "namespace_tree DNull = True"
| "namespace_tree (DBool b) = True"
| "namespace_tree DPrimitive = True"
| "namespace_members [] = True"
| "namespace_members ((key, d) # rest) =
     (key \<noteq> [] \<and> (if carries_service d then service_free d else namespace_tree d)
        \<and> namespace_members rest)"

section \<open>Properties of the stream writer\<close>

lemma run_Nil: "run cw s [] = s"
  by (simp add: run_def)

lemma run_Cons: "run cw s (e # es) = run cw (step cw s e) es"
  by (simp add: run_def)

lemma run_append: "run cw s (es @ fs) = run cw (run cw s es) fs"
  by (simp add: run_def)

lemma step_inert: "inert s \<Longrightarrow> step cw s ev = s"
  by (cases ev) (simp_all add: inert_def)

lemma run_inert: "inert s \<Longrightarrow> run cw s es = s"
  by (induction es) (simp_all add: run_Nil run_Cons step_inert)

lemma live_inv_init: "live_inv init"
  by (simp add: live_inv_def init_def)

lemma live_inv_step: "live_inv s \<Longrightarrow> live_inv (step cw s ev)"
  by (cases ev)
     (auto simp: live_inv_def on_next_def on_error_def on_complete_def drainHandler_def
        cancelHandler_def done'_def cleanup_def resolve_def reject_def write'_def Let_def
        split: list.splits if_splits)

lemma live_inv_run: "live_inv s \<Longrightarrow> live_inv (run cw s es)"
  by (induction es arbitrary: s) (simp_all add: run_Nil run_Cons live_inv_step)

lemma cancel_inert: "cancelOn s \<Longrightarrow> inert (step cw s Cancel)"
  by (simp add: inert_def cancelHandler_def done'_def cleanup_def resolve_def)

lemma cancel_trace: "cancelOn s \<Longrightarrow> trace (step cw s Cancel) = trace s @ [End]"
  by (simp add: cancelHandler_def done'_def cleanup_def resolve_def)

text \<open>
  Claim C8 (cancellation teardown). Take any point of a streaming invocation that has
  not reached a terminal state (its promise is still pending), whatever its buffer
  holds, and let the cancel event arrive. Then \<open>call.end()\<close> is the one effect of the
  cancel event; the subscription to the producer is released; whatever events follow
  (drains, late producer notifications, further cancel events), the effects on the
  call stay the same, so none of the buffered values is written; and a second cancel
  event leaves the state as it is.
\<close>

theorem cancel_teardown:
  assumes "s = writeObservableToGrpc cw es" and "promise s = Pending"
  shows "trace (step cw s Cancel) = trace s @ [End]
       \<and> \<not> subscribed (step cw s Cancel)
       \<and> run cw (step cw s Cancel) fs = step cw s Cancel
       \<and> trace (run cw (step cw s Cancel) fs) = trace s @ [End]
       \<and> step cw (step cw s Cancel) Cancel = step cw s Cancel"
proof -
  have "live_inv s"
    using assms(1) by (simp add: writeObservableToGrpc_def live_inv_run live_inv_init)
  with assms(2) have c: "cancelOn s"
    by (simp add: live_inv_def)
  have i: "inert (step cw s Cancel)"
    using c by (rule cancel_inert)
  have t: "trace (step cw s Cancel) = trace s @ [End]"
    using c by (rule cancel_trace)
  have r: "run cw (step cw s Cancel) fs = step cw s Cancel"
    using i by (rule run_inert)
  have "step cw (step cw s Cancel) Cancel = step cw s Cancel"
    using i by (rule step_inert)
  moreover have "\<not> subscribed (step cw s Cancel)"
    using i by (simp add: inert_def)
  ultimately show ?thesis
    using t r by simp
qed

text \<open>
  An instance: the first write meets backpressure, two more values are buffered, then
  the cancel event arrives, followed by a drain, a late value and a second cancel.
\<close>

theorem cancel_teardown_witness:
  "promise (writeObservableToGrpc (\<lambda>n. False) [Next (1::nat), Next 2, Next 3] :: (nat, string) writer) = Pending
   \<and> buffer (writeObservableToGrpc (\<lambda>n. False) [Next (1::nat), Next 2, Next 3] :: (nat, string) writer) = [2, 3]
   \<and> trace (run (\<lambda>n. False)
        (step (\<lambda>n. False) (writeObservableToGrpc (\<lambda>n. False) [Next 1, Next 2, Next 3]) Cancel)
        [Drain, Next 4, Cancel] :: (nat, string) writer) = [Write 1, End]"
proof -
  let ?s = "writeObservableToGrpc (\<lambda>n. False) [Next (1::nat), Next 2, Next 3] :: (nat, string) writer"
  have p: "promise ?s = Pending"
    by (simp add: writeObservableToGrpc_def run_def init_def on_next_def write'_def writes_def)
  have b: "buffer ?s = [2, 3]"
    by (simp add: writeObservableToGrpc_def run_def init_def on_next_def write'_def writes_def)
  have t: "trace ?s = [Write 1]"
    by (simp add: writeObservableToGrpc_def run_def init_def on_next_def write'_def writes_def)
  show ?thesis
    using cancel_teardown [OF refl p, of "[Drain, Next 4, Cancel]"] p b t by simp
qed

text \<open>On flow events the adapter does what the stream writer does, and stays live.\<close>

lemma stream_flow:
  "createStreamServiceMethod cw (filter is_flow es) = writeObservableToGrpc cw (filter is_flow es)
   \<and> subscribed (writeObservableToGrpc cw (filter is_flow es))
   \<and> promise (writeObservableToGrpc cw (filter is_flow es)) = Pending"
proof (induction es rule: rev_induct)
  case Nil
  show ?case
    by (simp add: createStreamServiceMethod_def writeObservableToGrpc_def run_def init_def)
next
  case (snoc ev es)
  let ?s = "writeObservableToGrpc cw (filter is_flow es)"
  have inv: "live_inv ?s"
    by (simp add: writeObservableToGrpc_def live_inv_run live_inv_init)
  show ?case
  proof (cases "is_flow ev")
    case False
    with snoc show ?thesis by simp
  next
    case True
    have keep: "subscribed (step cw ?s ev) \<and> promise (step cw ?s ev) = Pending"
      using True snoc inv
      by (cases ev)
         (auto simp: live_inv_def on_next_def drainHandler_def write'_def Let_def
            split: list.splits)
    have "createStreamServiceMethod cw (filter is_flow (es @ [ev]))
        = stream_step cw (createStreamServiceMethod cw (filter is_flow es)) ev"
      using True by (simp add: createStreamServiceMethod_def)
    also have "\<dots> = stream_step cw ?s ev"
      using snoc by simp
    also have "\<dots> = step cw ?s ev"
      using keep by (simp add: stream_step_def)
    finally have a: "createStreamServiceMethod cw (filter is_flow (es @ [ev])) = step cw ?s ev" .
    have b: "writeObservableToGrpc cw (filter is_flow (es @ [ev])) = step cw ?s ev"
      using True by (simp add: writeObservableToGrpc_def run_def)
    show ?thesis
      using a b keep by simp
  qed
qed

lemma stream_step_inert: "inert s \<Longrightarrow> promise s \<noteq> Pending \<Longrightarrow> stream_step cw s ev = s"
  by (simp add: stream_step_def step_inert split: promise.splits)

lemma stream_run_inert:
  "inert s \<Longrightarrow> promise s \<noteq> Pending \<Longrightarrow> foldl (stream_step cw) s es = s"
  by (induction es) (simp_all add: stream_step_inert)

lemmas writer_defs =
  writeObservableToGrpc_def run_def init_def on_next_def on_error_def on_complete_def
  drainHandler_def cancelHandler_def write'_def done'_def cleanup_def resolve_def reject_def
  writes_def Let_def

text \<open>
  Claim C1 (FIFO order under backpressure) does not hold of the code. The drain
  handler writes one buffered value and sets \<open>clearToWrite\<close> from the answer of that
  write; when the answer is \<open>true\<close> while the buffer still holds values, the next value
  of the producer is written at once, ahead of the values waiting in the buffer.
  Here the first write reports backpressure, 2 and 3 are buffered, the drain writes 2
  and the call accepts it, 4 arrives and is written before 3. No cancel event and no
  producer error occur, and the producer emitted 1, 2, 3, 4.
\<close>

theorem fifo_order_broken:
  "trace (writeObservableToGrpc (\<lambda>n. n = 1)
       [Next (1::nat), Next 2, Next 3, Drain, Next 4, Drain, Complete] :: (nat, string) writer)
     = [Write 1, Write 2, Write 4, Write 3, End]
   \<and> writes (trace (writeObservableToGrpc (\<lambda>n. n = 1)
       [Next (1::nat), Next 2, Next 3, Drain, Next 4, Drain, Complete] :: (nat, string) writer))
     \<noteq> [1, 2, 3, 4]"
  by (simp add: writer_defs)

text \<open>
  Claim C2 (deferred completion) does not hold of the code either, by the same branch
  of the drain handler. The producer emits 1 and 2 and completes; the write of 1
  reports backpressure, so 2 is buffered when the producer completes (N = 1). The
  drain writes 2 and the call accepts it. The buffer is now empty and the producer
  has completed, but \<open>done\<close> is only called from a drain that finds the buffer empty,
  and a drain is ignored while \<open>clearToWrite\<close> holds: from this state every event
  other than a cancel leaves the state as it is, so \<open>call.end()\<close> is never invoked
  and the promise stays pending.
\<close>

theorem completion_never_ends:
  "trace (writeObservableToGrpc (\<lambda>n. n \<noteq> 0) [Next (1::nat), Next 2, Complete, Drain]
       :: (nat, string) writer) = [Write 1, Write 2]
   \<and> promise (writeObservableToGrpc (\<lambda>n. n \<noteq> 0) [Next (1::nat), Next 2, Complete, Drain]
       :: (nat, string) writer) = Pending
   \<and> (\<forall>cw es. run cw (writeObservableToGrpc (\<lambda>n. n \<noteq> 0) [Next (1::nat), Next 2, Complete, Drain]
         :: (nat, string) writer) (filter (\<lambda>e. e \<noteq> Cancel) es)
       = writeObservableToGrpc (\<lambda>n. n \<noteq> 0) [Next 1, Next 2, Complete, Drain])"
proof -
  let ?s = "writeObservableToGrpc (\<lambda>n. n \<noteq> 0) [Next (1::nat), Next 2, Complete, Drain]
       :: (nat, string) writer"
  have s: "?s = \<lparr> buffer = [], isComplete = True, clearToWrite = True, drainOn = True,
      cancelOn = True, subscribed = False, promise = Pending, trace = [Write 1, Write 2] \<rparr>"
    by (simp add: writer_defs)
  define t :: "(nat, string) writer" where "t = ?s"
  have stuck: "step cw t ev = t" if "ev \<noteq> Cancel" for cw and ev :: "(nat, string) event"
    using that unfolding t_def s by (cases ev) (simp_all add: drainHandler_def)
  have "run cw t (filter (\<lambda>e. e \<noteq> Cancel) es) = t" for cw es
  proof (induction es)
    case Nil
    show ?case by (simp add: run_Nil)
  next
    case (Cons ev es)
    then show ?case by (cases "ev = Cancel") (simp_all add: run_Cons stuck)
  qed
  then have "\<forall>cw es. run cw ?s (filter (\<lambda>e. e \<noteq> Cancel) es) = ?s"
    unfolding t_def by blast
  moreover have "trace ?s = [Write 1, Write 2]" and "promise ?s = Pending"
    unfolding s by simp_all
  ultimately show ?thesis
    by blast
qed

lemma writes_append: "writes (t @ u) = writes t @ writes u"
  by (simp add: writes_def)

lemma writes_Write: "writes [Write v] = [v]"
  by (simp add: writes_def)

lemma persistentD: "persistent cw \<Longrightarrow> \<not> cw j \<Longrightarrow> j \<le> k \<Longrightarrow> \<not> cw k"
  unfolding persistent_def by blast

lemma fifo_step:
  assumes p: "persistent cw" and i: "fifo_inv cw s" and nc: "\<not> isComplete s" and f: "is_flow ev"
    and sub: "subscribed s" and d: "drainOn s"
  shows "fifo_inv cw (step cw s ev)
       \<and> writes (trace (step cw s ev)) @ buffer (step cw s ev)
         = writes (trace s) @ buffer s @ emitted [ev]"
proof (cases ev)
  case (Next v)
  show ?thesis
  proof (cases "clearToWrite s")
    case True
    with i have "buffer s = []" by (auto simp: fifo_inv_def)
    with True Next sub show ?thesis
      by (auto simp: fifo_inv_def on_next_def write'_def writes_append writes_Write emitted_def)
  next
    case False
    with i Next sub show ?thesis
      by (auto simp: fifo_inv_def on_next_def emitted_def)
  qed
next
  case Drain
  show ?thesis
  proof (cases "clearToWrite s")
    case True
    with Drain d i show ?thesis by (simp add: drainHandler_def emitted_def)
  next
    case False
    with i obtain j where j: "j < length (writes (trace s))" "\<not> cw j"
      by (auto simp: fifo_inv_def)
    then have k: "\<not> cw (length (writes (trace s)))"
      using persistentD [OF p, of j "length (writes (trace s))"] by simp
    show ?thesis
    proof (cases "buffer s")
      case Nil
      with False Drain d nc show ?thesis
        by (simp add: drainHandler_def emitted_def fifo_inv_def)
    next
      case (Cons b bs)
      with False Drain d k show ?thesis
        by (auto simp: drainHandler_def emitted_def fifo_inv_def write'_def writes_append writes_Write)
    qed
  qed
qed (use f in simp_all)

lemma only_writes_step:
  assumes "is_flow ev" and "\<not> isComplete s" and "trace s = map Write (writes (trace s))"
  shows "trace (step cw s ev) = map Write (writes (trace (step cw s ev)))"
proof (cases ev)
  case (Next v)
  with assms(3) show ?thesis
    by (auto simp: on_next_def write'_def writes_append writes_Write)
next
  case Drain
  with assms(2,3) show ?thesis
    by (auto simp: drainHandler_def write'_def writes_append writes_Write Let_def
        split: list.splits)
qed (use assms(1) in simp_all)

lemma only_writes_flow:
  "trace (writeObservableToGrpc cw (filter is_flow es))
     = map Write (writes (trace (writeObservableToGrpc cw (filter is_flow es))))
   \<and> \<not> isComplete (writeObservableToGrpc cw (filter is_flow es))"
proof (induction es rule: rev_induct)
  case Nil
  show ?case
    by (simp add: writeObservableToGrpc_def run_def init_def writes_def)
next
  case (snoc ev es)
  let ?s = "writeObservableToGrpc cw (filter is_flow es)"
  show ?case
  proof (cases "is_flow ev")
    case False
    with snoc show ?thesis by simp
  next
    case True
    have st: "writeObservableToGrpc cw (filter is_flow (es @ [ev])) = step cw ?s ev"
      using True by (simp add: writeObservableToGrpc_def run_def)
    have "\<not> isComplete (step cw ?s ev)"
      using True snoc
      by (cases ev) (auto simp: on_next_def drainHandler_def write'_def Let_def split: list.splits)
    then show ?thesis
      unfolding st using only_writes_step [OF True, of ?s cw] snoc by simp
  qed
qed

lemma emitted_append: "emitted (es @ fs) = emitted es @ emitted fs"
  by (simp add: emitted_def)

lemma fifo_flow:
  assumes p: "persistent cw"
  shows "fifo_inv cw (writeObservableToGrpc cw (filter is_flow es))
       \<and> writes (trace (writeObservableToGrpc cw (filter is_flow es)))
           @ buffer (writeObservableToGrpc cw (filter is_flow es))
         = emitted es
       \<and> \<not> isComplete (writeObservableToGrpc cw (filter is_flow es))"
proof (induction es rule: rev_induct)
  case Nil
  show ?case
    by (simp add: writeObservableToGrpc_def run_def init_def fifo_inv_def writes_def emitted_def)
next
  case (snoc ev es)
  let ?s = "writeObservableToGrpc cw (filter is_flow es)"
  have live: "live_inv ?s"
    by (simp add: writeObservableToGrpc_def live_inv_run live_inv_init)
  have sub: "subscribed ?s" and pen: "promise ?s = Pending"
    using stream_flow [of cw es] by simp_all
  have d: "drainOn ?s"
    using live pen by (simp add: live_inv_def)
  show ?case
  proof (cases "is_flow ev")
    case False
    then have "emitted [ev] = []"
      by (cases ev) (simp_all add: emitted_def)
    with False snoc show ?thesis by (simp add: emitted_append)
  next
    case True
    have st: "writeObservableToGrpc cw (filter is_flow (es @ [ev])) = step cw ?s ev"
      using True by (simp add: writeObservableToGrpc_def run_def)
    have nc: "\<not> isComplete ?s" using snoc by simp
    have nc': "\<not> isComplete (step cw ?s ev)"
      using True nc sub d
      by (cases ev) (auto simp: on_next_def drainHandler_def write'_def Let_def split: list.splits)
    from fifo_step [OF p _ nc True sub d] snoc
    show ?thesis
      unfolding st using nc' by (simp add: emitted_append)
  qed
qed

lemma drain_flush:
  assumes p: "persistent cw"
  shows "isComplete s \<Longrightarrow> \<not> clearToWrite s \<Longrightarrow> drainOn s \<Longrightarrow>
     \<exists>j < length (writes (trace s)). \<not> cw j \<Longrightarrow>
     trace (run cw s (replicate (Suc (length (buffer s))) Drain))
       = trace s @ map Write (buffer s) @ [End]"
proof (induction "buffer s" arbitrary: s)
  case Nil
  from Nil.hyps [symmetric] Nil.prems show ?case
    by (simp add: run_Cons run_Nil drainHandler_def done'_def cleanup_def resolve_def Let_def)
next
  case (Cons b bs)
  let ?s' = "step cw s Drain"
  from Cons.prems obtain j where j: "j < length (writes (trace s))" "\<not> cw j" by blast
  then have k: "\<not> cw (length (writes (trace s)))"
    using persistentD [OF p, of j "length (writes (trace s))"] by simp
  have s': "buffer ?s' = bs" "isComplete ?s'" "\<not> clearToWrite ?s'" "drainOn ?s'"
    "trace ?s' = trace s @ [Write b]"
    using Cons.prems Cons.hyps(2) [symmetric] k
    by (simp_all add: drainHandler_def write'_def)
  have "\<exists>j < length (writes (trace ?s')). \<not> cw j"
    using j s'(5) by (auto simp: writes_append intro: exI [of _ j])
  from Cons.hyps(1) [OF s'(1) [symmetric] s'(2) s'(3) s'(4) this]
  show ?case
    using Cons.hyps(2) [symmetric] s' by (simp add: run_Cons)
qed

text \<open>
  What holds in place of C1 and C2: under persistent backpressure, with no cancel
  event and no producer error, once the producer has completed and the call has
  drained once more than there were values waiting, the effects on the call are the
  writes of the emitted values in the order of emission, followed by one
  \<open>call.end()\<close>.
\<close>

lemma fifo_and_completion_under_persistent_backpressure:
  assumes p: "persistent cw"
  shows "trace (run cw (writeObservableToGrpc cw (filter is_flow es))
            (Complete # replicate (Suc (length (buffer (writeObservableToGrpc cw (filter is_flow es))))) Drain))
       = map Write (emitted es) @ [End]"
proof -
  define s where "s = writeObservableToGrpc cw (filter is_flow es)"
  define c where "c = step cw s Complete"
  have sub: "subscribed s" and pen: "promise s = Pending"
    using stream_flow [of cw es] by (simp_all add: s_def)
  have live: "live_inv s"
    by (simp add: s_def writeObservableToGrpc_def live_inv_run live_inv_init)
  have d: "drainOn s"
    using live pen by (simp add: live_inv_def)
  have inv: "fifo_inv cw s" and em: "writes (trace s) @ buffer s = emitted es"
    using fifo_flow [OF p, of es] by (simp_all add: s_def)
  have tw: "trace s = map Write (writes (trace s))"
    using only_writes_flow [of cw es] by (simp add: s_def)
  have r: "run cw s (Complete # ds) = run cw c ds" for ds
    by (simp add: run_Cons c_def)
  have "trace (run cw c (replicate (Suc (length (buffer s))) Drain))
      = map Write (emitted es) @ [End]"
  proof (cases "buffer s")
    case Nil
    have "inert c" and t: "trace c = trace s @ [End]"
      using Nil sub
      by (simp_all add: c_def on_complete_def done'_def cleanup_def resolve_def inert_def Let_def)
    then have "run cw c (replicate (Suc (length (buffer s))) Drain) = c"
      by (simp only: run_inert)
    moreover have "trace s = map Write (emitted es)"
      using em Nil tw by simp
    ultimately show ?thesis
      using t by simp
  next
    case (Cons b bs)
    with inv have ncl: "\<not> clearToWrite s"
      by (simp add: fifo_inv_def)
    with inv have ex: "\<exists>j < length (writes (trace s)). \<not> cw j"
      by (simp add: fifo_inv_def)
    have cb: "buffer c = buffer s" and ct: "trace c = trace s" and ci: "isComplete c"
      and cc: "\<not> clearToWrite c" and cd: "drainOn c"
      using Cons sub ncl d by (simp_all add: c_def on_complete_def Let_def)
    have ex': "\<exists>j < length (writes (trace c)). \<not> cw j"
      using ex ct by simp
    have "trace (run cw c (replicate (Suc (length (buffer c))) Drain))
        = trace c @ map Write (buffer c) @ [End]"
      using ci cc cd ex' by (rule drain_flush [OF p])
    also have "\<dots> = map Write (writes (trace s)) @ map Write (buffer s) @ [End]"
      using cb ct tw by simp
    also have "\<dots> = map Write (emitted es) @ [End]"
      using em by (metis append_assoc map_append)
    finally show ?thesis
      using cb by simp
  qed
  then show ?thesis
    using r by (simp add: s_def)
qed

text \<open>
  A producer error in a live server-streaming call: the error callback of the stream
  writer emits the error and rejects the promise, and the \<open>catch\<close> block of the adapter
  emits the same error again. Nothing is written afterwards, whatever follows.
\<close>

lemma stream_error_twice:
  "trace (createStreamServiceMethod cw (filter is_flow es @ Error e # fs))
     = trace (createStreamServiceMethod cw (filter is_flow es)) @ [EmitError e, EmitError e]"
proof -
  let ?s = "writeObservableToGrpc cw (filter is_flow es)"
  let ?t = "stream_step cw ?s (Error e)"
  have f: "createStreamServiceMethod cw (filter is_flow es) = ?s"
    and sub: "subscribed ?s" and pen: "promise ?s = Pending"
    using stream_flow [of cw es] by simp_all
  have t: "trace ?t = trace ?s @ [EmitError e, EmitError e]"
    and i: "inert ?t" and p: "promise ?t \<noteq> Pending"
    using sub pen
    by (simp_all add: stream_step_def on_error_def cleanup_def reject_def inert_def)
  have "createStreamServiceMethod cw (filter is_flow es @ Error e # fs)
      = foldl (stream_step cw) (stream_step cw (createStreamServiceMethod cw (filter is_flow es)) (Error e)) fs"
    by (simp add: createStreamServiceMethod_def)
  also have "\<dots> = foldl (stream_step cw) ?t fs"
    using f by simp
  also have "\<dots> = ?t"
    using i p by (rule stream_run_inert)
  finally show ?thesis
    using t f by simp
qed

text \<open>
  Claim C3 (producer error during server-streaming) does not hold of the code: the
  error reaches the call's error channel twice, not once. Here the producer emits 1,
  whose write reports backpressure, then 2, which is buffered, then fails; a drain
  follows. The buffered value is not written, as the claim says, but \<open>boom\<close> is
  emitted twice.
\<close>

theorem stream_error_emitted_twice:
  "trace (createStreamServiceMethod (\<lambda>n. False) [Next (1::nat), Next 2, Error ''boom'', Drain])
     = [Write 1, EmitError ''boom'', EmitError ''boom'']
   \<and> errors (trace (createStreamServiceMethod (\<lambda>n. False)
        [Next (1::nat), Next 2, Error ''boom'', Drain])) = [''boom'', ''boom'']"
  by (simp add: createStreamServiceMethod_def stream_step_def errors_def writer_defs)

section \<open>Properties of the call adapters\<close>





lemma indexOf_from_ge: "indexOf_from s p i = - 1 \<or> int i \<le> indexOf_from s p i"
  by (induction s p i rule: indexOf_from.induct) auto

lemma indexOf_zero: "indexOf s p = 0 \<longleftrightarrow> take (length p) s = p"
proof (cases s)
  case Nil
  then show ?thesis by (auto simp: indexOf_def)
next
  case (Cons c cs)
  have "indexOf_from cs p (Suc 0) \<noteq> 0"
    using indexOf_from_ge [of cs p "Suc 0"] by auto
  with Cons show ?thesis by (auto simp: indexOf_def)
qed

text \<open>
  What the \<open>error\<close> listener does, for every error: the request sequence is failed
  exactly when the lower-cased text of the error begins with \<open>cancelled\<close> (the one case
  in which \<open>indexOf\<close> gives 0); in every other case, whether \<open>cancelled\<close> occurs later
  in the text or not at all, the call is ended and the error is not forwarded.
\<close>

lemma request_error_branch:
  "request_step s (CallError e) =
     (if take (length ''cancelled'') (toLowerCase e) = ''cancelled'' then subject_error e s
      else s\<lparr> call_ends := call_ends s + 1 \<rparr>)"
  unfolding request_step.simps Let_def truthy_number_def indexOf_zero by simp

text \<open>
  Claim C4 (peer-cancel reinterpretation) does not hold of the code. An error whose
  text does not mention \<open>cancelled\<close> is not forwarded to the request sequence: the
  call is ended instead. And an error whose text begins with \<open>cancelled\<close> is forwarded
  as a failure of the request sequence, while the call is not ended.
\<close>

theorem cancelled_test_inverted:
  "request_step request_init (CallError ''Error: connection reset'')
     = (request_init\<lparr> call_ends := 1 \<rparr> :: (nat, string) request_stream)
   \<and> request_step request_init (CallError ''Cancelled on client'')
     = (request_init\<lparr> delivered := [OnError ''Cancelled on client''], req_stopped := True \<rparr>
          :: (nat, string) request_stream)"
  by (simp add: request_init_def toLowerCase_def indexOf_def truthy_number_def Let_def
      subject_error_def)









section \<open>Properties of the registry and the binder\<close>

lemmas pattern_defs =
  createPattern_def JSON_stringify_def json_quote_def json_escape_def opt_json_def

text \<open>
  Claim C7 (registry round trip with structural keys) as stated fails on the code:
  the route is the JSON text of the key object, which follows the order of its
  properties. A key object with the components (\<open>GreetService\<close>, \<open>Hello\<close>, no streaming)
  whose properties are held in the order \<open>rpc\<close>, \<open>service\<close>, \<open>streaming\<close> has the same
  components as the key the binder builds, and the handler registered under it is
  not found.
\<close>

theorem registry_order_dependent:
  "components [(''rpc'', JString ''Hello''), (''service'', JString ''GreetService''),
               (''streaming'', JString (streaming_value NO_STREAMING))]
     = components [(''service'', JString ''GreetService''), (''rpc'', JString ''Hello''),
               (''streaming'', JString (streaming_value NO_STREAMING))]
   \<and> addHandler
        (PObject [(''rpc'', JString ''Hello''), (''service'', JString ''GreetService''),
                  (''streaming'', JString (streaming_value NO_STREAMING))])
        \<lparr> handler = (7::nat), isEventHandler = False \<rparr> False Map.empty
        (createPattern ''GreetService'' (JString ''Hello'') NO_STREAMING) = None"
  by (simp add: components_def addHandler_def pattern_defs)

text \<open>
  The entry stored by \<open>addHandler\<close> is found under a route exactly when the route is
  the JSON text of the key object (or the key itself, when the key is a string);
  every other route is left as it was.
\<close>

lemma addHandler_route:
  "addHandler (PObject props) h ev mh r
     = (if JSON_stringify props = r then Some (h\<lparr> isEventHandler := ev \<rparr>) else mh r)"
  "addHandler (PString t) h ev mh r
     = (if t = r then Some (h\<lparr> isEventHandler := ev \<rparr>) else mh r)"
  by (auto simp: addHandler_def)

text \<open>
  The three properties in any of the five other orders have the same components as
  the key of the binder, and a JSON text that differs from it, whatever the service
  name, the method name and the streaming kind.
\<close>

lemma other_orders_components:
  "components [(''service'', JString s), (''streaming'', JString (streaming_value k)), (''rpc'', JString m)]
     = components [(''service'', JString s), (''rpc'', JString m), (''streaming'', JString (streaming_value k))]"
  "components [(''rpc'', JString m), (''service'', JString s), (''streaming'', JString (streaming_value k))]
     = components [(''service'', JString s), (''rpc'', JString m), (''streaming'', JString (streaming_value k))]"
  "components [(''rpc'', JString m), (''streaming'', JString (streaming_value k)), (''service'', JString s)]
     = components [(''service'', JString s), (''rpc'', JString m), (''streaming'', JString (streaming_value k))]"
  "components [(''streaming'', JString (streaming_value k)), (''service'', JString s), (''rpc'', JString m)]
     = components [(''service'', JString s), (''rpc'', JString m), (''streaming'', JString (streaming_value k))]"
  "components [(''streaming'', JString (streaming_value k)), (''rpc'', JString m), (''service'', JString s)]
     = components [(''service'', JString s), (''rpc'', JString m), (''streaming'', JString (streaming_value k))]"
  by (simp_all add: components_def)

lemma other_orders_text:
  "JSON_stringify [(''service'', JString s), (''streaming'', JString (streaming_value k)), (''rpc'', JString m)]
     \<noteq> createPattern s (JString m) k"
  "JSON_stringify [(''rpc'', JString m), (''service'', JString s), (''streaming'', JString (streaming_value k))]
     \<noteq> createPattern s (JString m) k"
  "JSON_stringify [(''rpc'', JString m), (''streaming'', JString (streaming_value k)), (''service'', JString s)]
     \<noteq> createPattern s (JString m) k"
  "JSON_stringify [(''streaming'', JString (streaming_value k)), (''service'', JString s), (''rpc'', JString m)]
     \<noteq> createPattern s (JString m) k"
  "JSON_stringify [(''streaming'', JString (streaming_value k)), (''rpc'', JString m), (''service'', JString s)]
     \<noteq> createPattern s (JString m) k"
  by (simp_all add: createPattern_def JSON_stringify_def json_quote_def json_escape_def)

text \<open>
  Claim C7 as amended. Keys are compared by their JSON text: the handler registered
  under a key object is found under a route exactly when the route equals the JSON
  text of the object, and every other route keeps what it held. So, for every handler
  and every service name, method name and streaming kind: a lookup under the key the
  binder builds for them returns exactly that handler (with its \<open>isEventHandler\<close> flag
  set as given) after the handler was registered under a key object holding the
  properties \<open>service\<close>, \<open>rpc\<close>, \<open>streaming\<close> in this order, or under the JSON text of
  such an object; and after a registration under a key object holding the same three
  properties in any of the five other orders, that lookup returns what it returned
  before the registration.
\<close>

theorem registry_round_trip:
  "addHandler (PObject props) h ev mh r
     = (if JSON_stringify props = r then Some (h\<lparr> isEventHandler := ev \<rparr>) else mh r)
   \<and> addHandler (PObject [(''service'', JString s), (''rpc'', JString m),
                        (''streaming'', JString (streaming_value k))]) h ev mh
      (createPattern s (JString m) k) = Some (h\<lparr> isEventHandler := ev \<rparr>)
   \<and> addHandler (PString (createPattern s (JString m) k)) h ev mh
      (createPattern s (JString m) k) = Some (h\<lparr> isEventHandler := ev \<rparr>)
   \<and> addHandler (PObject [(''service'', JString s), (''streaming'', JString (streaming_value k)),
                        (''rpc'', JString m)]) h ev mh
      (createPattern s (JString m) k) = mh (createPattern s (JString m) k)
   \<and> addHandler (PObject [(''rpc'', JString m), (''service'', JString s),
                        (''streaming'', JString (streaming_value k))]) h ev mh
      (createPattern s (JString m) k) = mh (createPattern s (JString m) k)
   \<and> addHandler (PObject [(''rpc'', JString m), (''streaming'', JString (streaming_value k)),
                        (''service'', JString s)]) h ev mh
      (createPattern s (JString m) k) = mh (createPattern s (JString m) k)
   \<and> addHandler (PObject [(''streaming'', JString (streaming_value k)), (''service'', JString s),
                        (''rpc'', JString m)]) h ev mh
      (createPattern s (JString m) k) = mh (createPattern s (JString m) k)
   \<and> addHandler (PObject [(''streaming'', JString (streaming_value k)), (''rpc'', JString m),
                        (''service'', JString s)]) h ev mh
      (createPattern s (JString m) k) = mh (createPattern s (JString m) k)"
proof -
  have canonical: "JSON_stringify [(''service'', JString s), (''rpc'', JString m),
      (''streaming'', JString (streaming_value k))] = createPattern s (JString m) k"
    by (simp add: createPattern_def)
  show ?thesis
    by (simp only: addHandler_route canonical other_orders_text if_True if_False simp_thms)
qed

text \<open>
  Claim C5 (fallback to \<open>originalName\<close>) does not hold of the code. The fallback is
  one lookup with the streaming kind tried last, which for a request-streaming method
  is the pass-through kind. A request-streaming method \<open>hello\<close> with original name
  \<open>Hello\<close>, whose handler is registered under (\<open>GreetService\<close>, \<open>Hello\<close>, reactive
  streaming), is left unbound. The same handler registered under the pass-through kind
  is found through the fallback, and so is the handler of a method without request
  streaming.
\<close>

theorem original_name_fallback_misses_rx:
  "createService
     (addHandler (PString (createPattern ''GreetService'' (JString ''Hello'') RX_STREAMING))
        \<lparr> handler = (7::nat), isEventHandler = False \<rparr> False Map.empty)
     [(''hello'', \<lparr> requestStream = True, responseStream = False, originalName = Some ''Hello'' \<rparr>)]
     ''GreetService'' = []
   \<and> createService
     (addHandler (PString (createPattern ''GreetService'' (JString ''Hello'') PT_STREAMING))
        \<lparr> handler = (7::nat), isEventHandler = False \<rparr> False Map.empty)
     [(''hello'', \<lparr> requestStream = True, responseStream = False, originalName = Some ''Hello'' \<rparr>)]
     ''GreetService''
     = [(''hello'', StreamCallMethod \<lparr> handler = 7, isEventHandler = False \<rparr> False)]
   \<and> createService
     (addHandler (PString (createPattern ''GreetService'' (JString ''Hello'') NO_STREAMING))
        \<lparr> handler = (7::nat), isEventHandler = False \<rparr> False Map.empty)
     [(''hello'', \<lparr> requestStream = False, responseStream = False, originalName = Some ''Hello'' \<rparr>)]
     ''GreetService''
     = [(''hello'', UnaryServiceMethod \<lparr> handler = 7, isEventHandler = False \<rparr>)]"
  by (simp add: createService_def bind_method_def addHandler_def createServiceMethod_def
      pattern_defs)

section \<open>Properties of service discovery\<close>

lemma carries_iff: "isServiceDefined d \<and> isServiceBoolean d \<longleftrightarrow> carries_service d"
  by (cases d) (auto simp: isServiceDefined_def isServiceBoolean_def carries_service_def)

text \<open>
  The walk appends to the accumulator the service-carrying nodes among those it
  reaches, in the order it reaches them.
\<close>

lemma collect_walk:
  "collectDeepServices name d acc
     = acc @ map (named name) (filter (\<lambda>(p, x). carries_service x) (walk_nodes d))"
  "traverse name props acc
     = acc @ map (named name) (filter (\<lambda>(p, x). carries_service x) (walk_members props))"
proof (induction name d acc and name props acc rule: collectDeepServices_traverse.induct)
  case (8 name key deepDefinition rest accumulator)
  show ?case
  proof (cases "carries_service deepDefinition")
    case True
    then show ?thesis
      using 8(2) by (simp add: carries_iff named_def)
  next
    case False
    have m: "map (named name) (filter (\<lambda>(p, x). carries_service x)
                (map (\<lambda>(p, x). (key # p, x)) (walk_nodes deepDefinition)))
           = map (named (parseDeepServiceName name key))
                (filter (\<lambda>(p, x). carries_service x) (walk_nodes deepDefinition))"
      by (induction "walk_nodes deepDefinition")
         (auto simp: named_def filter_map o_def case_prod_beta)
    show ?thesis
      using False 8(1) 8(2) by (simp add: carries_iff named_def m[unfolded named_def])
  qed
qed simp_all

lemma parse_empty: "parseDeepServiceName [] key = key"
  by (simp add: parseDeepServiceName_def)

lemma parse_nonempty: "name \<noteq> [] \<Longrightarrow> parseDeepServiceName name key = name @ ''.'' @ key"
  by (simp add: parseDeepServiceName_def)

lemma join_shift: "join ''.'' ((a @ ''.'' @ b) # ks) = a @ ''.'' @ join ''.'' (b # ks)"
  by (cases ks) simp_all

lemma extend_nonempty:
  "name \<noteq> [] \<Longrightarrow> foldl parseDeepServiceName name ks = join ''.'' (name # ks)"
proof (induction ks arbitrary: name)
  case Nil
  show ?case by simp
next
  case (Cons k ks)
  have "foldl parseDeepServiceName name (k # ks)
      = foldl parseDeepServiceName (name @ ''.'' @ k) ks"
    using Cons.prems by (simp add: parse_nonempty)
  also have "\<dots> = join ''.'' ((name @ ''.'' @ k) # ks)"
    by (rule Cons.IH) simp
  also have "\<dots> = join ''.'' (name # k # ks)"
    using join_shift [of name k ks] by simp
  finally show ?case .
qed

text \<open>
  Starting from the empty name, the name built along a path is the path joined with
  dots, except that empty keys at the start of the path leave no trace.
\<close>

lemma extend_root:
  "foldl parseDeepServiceName [] ks = join ''.'' (dropWhile (\<lambda>k. k = []) ks)"
proof (induction ks)
  case Nil
  show ?case by simp
next
  case (Cons k ks)
  show ?case
  proof (cases "k = []")
    case True
    with Cons show ?thesis by (simp add: parse_empty)
  next
    case False
    then show ?thesis by (simp add: parse_empty extend_nonempty)
  qed
qed

lemma getServiceNames_walk:
  "getServiceNames t =
     map (\<lambda>(p, d). (dotted (dropWhile (\<lambda>k. k = []) p), d))
       (filter (\<lambda>(p, d). carries_service d) (walk_nodes t))"
  by (simp add: getServiceNames_def collect_walk named_def extend_root dotted_def)

text \<open>
  Claim C9 (service discovery completeness) as stated fails on the code: the walk
  does not look inside a node once it carries a service definition. For a package
  \<open>acme.service\<close> with a service \<open>Greeter\<close>, the namespace node \<open>acme\<close> has a field
  \<open>service\<close> (its sub-namespace), so it is reported, and \<open>acme.service.Greeter\<close>, which
  carries a service definition too, is not.
\<close>

theorem discovery_misses_nested:
  "getServiceNames
     (DObject [(''acme'', DObject [(''service'',
        DObject [(''Greeter'', DFunction [(''service'', DObject [])])])])])
     = [(''acme'', DObject [(''service'',
          DObject [(''Greeter'', DFunction [(''service'', DObject [])])])])]
   \<and> claimed_services
     (DObject [(''acme'', DObject [(''service'',
        DObject [(''Greeter'', DFunction [(''service'', DObject [])])])])])
     = [(''acme'', DObject [(''service'',
          DObject [(''Greeter'', DFunction [(''service'', DObject [])])])]),
        (''acme.service.Greeter'', DFunction [(''service'', DObject [])])]"
  by (simp add: getServiceNames_def claimed_services_def carries_service_def dotted_def
      isServiceDefined_def isServiceBoolean_def parseDeepServiceName_def)

text \<open>
  Claim C9 as amended: for every tree, \<open>getServiceNames\<close> returns exactly the nodes
  carrying a service definition among the nodes reached from the root through plain
  objects that carry none (the walk stops at a node that carries one, and does not
  enter functions or primitives), in the order of the walk, each paired with the keys
  of its path joined with dots; empty keys at the start of a path are left out of
  the name.
\<close>

theorem discovery_exact:
  "getServiceNames t =
     map (\<lambda>(p, d). (dotted (dropWhile (\<lambda>k. k = []) p), d))
       (filter (\<lambda>(p, d). carries_service d) (walk_nodes t))"
  by (rule getServiceNames_walk)

lemma terminal_walk:
  "namespace_tree d \<Longrightarrow>
     filter (\<lambda>(p, x). carries_service x) (all_nodes d)
       = filter (\<lambda>(p, x). carries_service x) (walk_nodes d)"
  "namespace_members props \<Longrightarrow>
     filter (\<lambda>(p, x). carries_service x) (all_members props)
       = filter (\<lambda>(p, x). carries_service x) (walk_members props)"
proof (induction d and props rule: namespace_tree_namespace_members.induct)
  case (8 key d rest)
  have push: "filter (\<lambda>(p, x). carries_service x) (map (\<lambda>(p, x). (key # p, x)) xs)
      = map (\<lambda>(p, x). (key # p, x)) (filter (\<lambda>(p, x). carries_service x) xs)" for xs
    by (induction xs) auto
  show ?case
  proof (cases "carries_service d")
    case True
    with 8 show ?thesis by (simp add: push service_free_def)
  next
    case False
    with 8 show ?thesis by (simp add: push)
  qed
qed (simp_all add: service_free_def)

lemma walk_first_key:
  "(p, x) \<in> set (walk_nodes d) \<Longrightarrow> namespace_tree d \<Longrightarrow> p \<noteq> [] \<and> hd p \<noteq> []"
  "(p, x) \<in> set (walk_members props) \<Longrightarrow> namespace_members props \<Longrightarrow> p \<noteq> [] \<and> hd p \<noteq> []"
  by (induction d and props rule: walk_nodes_walk_members.induct) (auto split: if_splits)

lemma dropWhile_first: "p \<noteq> [] \<and> hd p \<noteq> [] \<Longrightarrow> dropWhile (\<lambda>k. k = []) p = p"
  by (cases p) simp_all

text \<open>
  On a tree in which the service definitions are terminal, the two agree: discovery
  returns every node that carries a service definition, with its dotted name.
\<close>

lemma discovery_complete_on_namespace_trees:
  assumes "namespace_tree t"
  shows "getServiceNames t = claimed_services t"
proof -
  let ?found = "filter (\<lambda>(p, d). carries_service d) (walk_nodes t)"
  have "dropWhile (\<lambda>k. k = []) p = p" if "(p, x) \<in> set ?found" for p x
  proof -
    from that have "(p, x) \<in> set (walk_nodes t)" by simp
    then show ?thesis
      using walk_first_key(1) [OF _ assms] dropWhile_first by blast
  qed
  then have "map (\<lambda>(p, d). (dotted (dropWhile (\<lambda>k. k = []) p), d)) ?found
           = map (\<lambda>(p, d). (dotted p, d)) ?found"
    by (intro map_cong) auto
  then have "getServiceNames t = map (\<lambda>(p, d). (dotted p, d)) ?found"
    by (simp add: getServiceNames_walk)
  also have "\<dots> = claimed_services t"
    using terminal_walk(1) [OF assms] by (simp add: claimed_services_def)
  finally show ?thesis .
qed

end
